theory Spec2Isabelle
  imports Complex_Main
begin

section \<open>Text preprocessing: \<open>tokenize\<close>, \<open>count_corpus\<close> and \<open>Vocab\<close>\<close>

text \<open>
  Source: \<^verbatim>\<open>chapter_recurrent-neural-networks/text-preprocessing.ipynb\<close>.
  A Python \<open>str\<close> is a \<open>string\<close>; a \<open>char\<close> stands for a code point below 256.
\<close>

subsection \<open>The built-in \<open>str.split()\<close> and \<open>list(str)\<close>\<close>

text \<open>
  \<open>str.isspace\<close> on one character, for the code points below 256: tab, line feed,
  vertical tab, form feed, carriage return, the separators 28 to 31, the space, and the
  Latin-1 characters 133 (next line) and 160 (no-break space).
\<close>

definition isspace :: "char \<Rightarrow> bool" where
  "isspace c = ((of_char c :: nat) \<in> set [9, 10, 11, 12, 13, 28, 29, 30, 31, 32, 133, 160])"

text \<open>
  \<open>line.split()\<close> with no separator: runs of whitespace separate the words, and leading
  and trailing whitespace gives no empty word. \<open>split_from cur cs\<close> scans \<open>cs\<close> with the
  word \<open>cur\<close> being read.
\<close>

fun split_from :: "string \<Rightarrow> string \<Rightarrow> string list" where
  "split_from cur [] = (if cur = [] then [] else [cur])"
| "split_from cur (c # cs) =
     (if isspace c then (if cur = [] then split_from [] cs else cur # split_from [] cs)
      else split_from (cur @ [c]) cs)"

definition split :: "string \<Rightarrow> string list" where
  "split line = split_from [] line"

text \<open>\<open>list(line)\<close>: the characters of the line, each a string of length one.\<close>

definition list_of_str :: "string \<Rightarrow> string list" where
  "list_of_str line = map (\<lambda>c. [c]) line"

subsection \<open>\<open>tokenize\<close>\<close>

text \<open>
  \<^verbatim>\<open>
  def tokenize(lines, token='word'):
      if token == 'word':
          return [line.split() for line in lines]
      elif token == 'char':
          return [list(line) for line in lines]
      else:
          print('ERROR: unknown token type: ' + token)
  \<close>
  The result is the pair of what the call prints (one string per \<open>print\<close>) and what it
  returns; \<open>None\<close> is Python's \<open>None\<close>, returned when the function body ends without a
  \<open>return\<close>. The argument \<open>token\<close> is \<open>None\<close> when the caller omits it.
\<close>

definition tokenize :: "string list \<Rightarrow> string option \<Rightarrow> string list \<times> string list list option" where
  "tokenize lines token_arg =
     (let token = (case token_arg of None \<Rightarrow> ''word'' | Some t \<Rightarrow> t) in
      if token = ''word'' then ([], Some (map split lines))
      else if token = ''char'' then ([], Some (map list_of_str lines))
      else ([''ERROR: unknown token type: '' @ token], None))"

subsection \<open>\<open>count_corpus\<close>\<close>

text \<open>
  \<open>collections.Counter(tokens)\<close>: a dictionary of counts that keeps its keys in the order
  of their first occurrence, as an association list.
\<close>

fun counter_add :: "(string \<times> nat) list \<Rightarrow> string \<Rightarrow> (string \<times> nat) list" where
  "counter_add [] t = [(t, 1)]"
| "counter_add ((k, c) # kvs) t =
     (if k = t then (k, Suc c) # kvs else (k, c) # counter_add kvs t)"

definition Counter :: "string list \<Rightarrow> (string \<times> nat) list" where
  "Counter tokens = fold (\<lambda>t cnt. counter_add cnt t) tokens []"

text \<open>The argument \<open>tokens\<close> of \<open>Vocab\<close> and \<open>count_corpus\<close>: a 1D list of tokens or a 2D
  list of token lists.\<close>

datatype corpus = Tokens1D "string list" | Tokens2D "string list list"

text \<open>
  \<^verbatim>\<open>
  def count_corpus(tokens):
      if len(tokens) == 0 or isinstance(tokens[0], list):
          tokens = [token for line in tokens for token in line]
      return collections.Counter(tokens)
  \<close>
\<close>

fun flatten_corpus :: "corpus \<Rightarrow> string list" where
  "flatten_corpus (Tokens1D ts) = ts"
| "flatten_corpus (Tokens2D ls) = concat ls"

definition count_corpus :: "corpus \<Rightarrow> (string \<times> nat) list" where
  "count_corpus tokens = Counter (flatten_corpus tokens)"

subsection \<open>\<open>Vocab\<close>\<close>

record vocab =
  token_freqs :: "(string \<times> nat) list"
  unk :: nat
  idx_to_token :: "string list"
  token_to_idx :: "string \<rightharpoonup> nat"

text \<open>
  \<open>sorted(counter.items(), key=lambda x: x[1], reverse=True)\<close>: a stable sort by
  decreasing count (Python keeps the order of equal keys also with \<open>reverse=True\<close>).
\<close>

definition sorted_by_freq :: "(string \<times> nat) list \<Rightarrow> (string \<times> nat) list" where
  "sorted_by_freq items = sort_key (\<lambda>(t, c). - int c) items"

text \<open>The loop body of the constructor: append the token, then store its index.\<close>

definition add_token :: "string \<Rightarrow> string list \<times> (string \<rightharpoonup> nat) \<Rightarrow> string list \<times> (string \<rightharpoonup> nat)" where
  "add_token token st =
     (let i2t = fst st @ [token] in (i2t, (snd st)(token \<mapsto> length i2t - 1)))"

text \<open>
  \<^verbatim>\<open>
  def __init__(self, tokens=None, min_freq=0, reserved_tokens=None):
      if tokens is None: tokens = []
      if reserved_tokens is None: reserved_tokens = []
      counter = count_corpus(tokens)
      self.token_freqs = sorted(counter.items(), key=lambda x: x[1], reverse=True)
      self.unk, uniq_tokens = 0, ['<unk>'] + reserved_tokens
      uniq_tokens += [token for token, freq in self.token_freqs
                      if freq >= min_freq and token not in uniq_tokens]
      self.idx_to_token, self.token_to_idx = [], dict()
      for token in uniq_tokens:
          self.idx_to_token.append(token)
          self.token_to_idx[token] = len(self.idx_to_token) - 1
  \<close>
  The list comprehension is evaluated before \<open>+=\<close> extends \<open>uniq_tokens\<close>, so its test
  \<open>token not in uniq_tokens\<close> reads the list \<open>['<unk>'] + reserved_tokens\<close>.
\<close>

definition uniq_tokens_of :: "(string \<times> nat) list \<Rightarrow> int \<Rightarrow> string list \<Rightarrow> string list" where
  "uniq_tokens_of freqs min_freq reserved_tokens =
     (let uniq_tokens = ''<unk>'' # reserved_tokens in
      uniq_tokens @
        map fst (filter (\<lambda>(token, freq). min_freq \<le> int freq \<and> token \<notin> set uniq_tokens) freqs))"

definition Vocab :: "corpus option \<Rightarrow> int \<Rightarrow> string list option \<Rightarrow> vocab" where
  "Vocab tokens_arg min_freq reserved_arg =
     (let tokens = (case tokens_arg of None \<Rightarrow> Tokens1D [] | Some ts \<Rightarrow> ts);
          reserved_tokens = (case reserved_arg of None \<Rightarrow> [] | Some rs \<Rightarrow> rs);
          counter = count_corpus tokens;
          freqs = sorted_by_freq counter;
          uniq_tokens = uniq_tokens_of freqs min_freq reserved_tokens;
          st = fold add_token uniq_tokens ([], Map.empty)
      in \<lparr>token_freqs = freqs, unk = 0, idx_to_token = fst st, token_to_idx = snd st\<rparr>)"

text \<open>\<open>__len__\<close>\<close>

definition len :: "vocab \<Rightarrow> nat" where
  "len v = length (idx_to_token v)"

text \<open>
  \<^verbatim>\<open>
  def __getitem__(self, tokens):
      if not isinstance(tokens, (list, tuple)):
          return self.token_to_idx.get(tokens, self.unk)
      return [self.__getitem__(token) for token in tokens]
  \<close>
  The argument is one token (a \<open>str\<close>) or a list or tuple of arguments; the result has the
  same nesting.
\<close>

datatype tokens_arg = Token string | TokenSeq "tokens_arg list"

datatype indices = Index nat | IndexSeq "indices list"

fun getitem :: "vocab \<Rightarrow> tokens_arg \<Rightarrow> indices" where
  "getitem v (Token t) = Index (case token_to_idx v t of None \<Rightarrow> unk v | Some i \<Rightarrow> i)"
| "getitem v (TokenSeq ts) = IndexSeq (map (getitem v) ts)"

text \<open>
  Python's \<open>xs[i]\<close> on a list: a negative index counts from the end, and an index out of
  range raises \<open>IndexError\<close>.
\<close>

datatype error = IndexError | RuntimeError | TypeError

definition py_index :: "'a list \<Rightarrow> int \<Rightarrow> error + 'a" where
  "py_index xs i =
     (if 0 \<le> i \<and> i < int (length xs) then Inr (xs ! nat i)
      else if i < 0 \<and> - int (length xs) \<le> i then Inr (xs ! nat (int (length xs) + i))
      else Inl IndexError)"

text \<open>
  \<^verbatim>\<open>
  def to_tokens(self, indices):
      if not isinstance(indices, (list, tuple)):
          return self.idx_to_token[indices]
      return [self.idx_to_token[index] for index in indices]
  \<close>
\<close>

datatype indices_arg = OneIndex int | ManyIndices "int list"

datatype tokens_res = OneToken string | ManyTokens "string list"

fun collect :: "(error + 'a) list \<Rightarrow> error + 'a list" where
  "collect [] = Inr []"
| "collect (r # rs) =
     (case r of Inl e \<Rightarrow> Inl e
      | Inr x \<Rightarrow> (case collect rs of Inl e \<Rightarrow> Inl e | Inr xs \<Rightarrow> Inr (x # xs)))"

fun to_tokens :: "vocab \<Rightarrow> indices_arg \<Rightarrow> error + tokens_res" where
  "to_tokens v (OneIndex i) = map_sum id OneToken (py_index (idx_to_token v) i)"
| "to_tokens v (ManyIndices is) =
     map_sum id ManyTokens (collect (map (py_index (idx_to_token v)) is))"

section \<open>Tensors of the framework\<close>

text \<open>
  A tensor holds its shape and its elements in row-major order, as a contiguous tensor of
  the framework does. The element type is a parameter. The elements stand for the
  framework's 32-bit floating-point values, and what the framework computes on them is
  a parameter too, the record \<open>arith\<close> below: nothing is assumed of it, so a theorem
  stated for every \<open>arith\<close> holds of the framework's own arithmetic, with its rounding,
  its infinities and NaN.
\<close>

record 'a tensor2 =
  nrows :: nat
  ncols :: nat
  vals :: "'a list"

text \<open>
  The framework's operations on elements and its reductions:
  \<^item> \<open>fzero\<close>: the element of \<open>torch.zeros\<close> (and the \<open>int\<close> 0 as an element);
  \<^item> \<open>fmul\<close>, \<open>fadd\<close>: the elementwise \<open>*\<close> and \<open>+\<close>;
  \<^item> \<open>fsum T\<close>, \<open>fmean T\<close>: \<open>T.sum()\<close> and \<open>T.mean()\<close>, whatever the order in
    which the framework adds;
  \<^item> \<open>fmax T\<close>: \<open>T.max()\<close> of a tensor that has an element;
  \<^item> \<open>fmatmul A B i j\<close>: the entry at \<open>(i, j)\<close> of \<open>torch.matmul(A, B)\<close>.
\<close>

record 'a arith =
  fzero :: 'a
  fmul :: "'a \<Rightarrow> 'a \<Rightarrow> 'a"
  fadd :: "'a \<Rightarrow> 'a \<Rightarrow> 'a"
  fsum :: "'a tensor2 \<Rightarrow> 'a"
  fmean :: "'a tensor2 \<Rightarrow> 'a"
  fmax :: "'a tensor2 \<Rightarrow> 'a"
  fmatmul :: "'a tensor2 \<Rightarrow> 'a tensor2 \<Rightarrow> nat \<Rightarrow> nat \<Rightarrow> 'a"

definition wf2 :: "'a tensor2 \<Rightarrow> bool" where
  "wf2 T = (length (vals T) = nrows T * ncols T)"

text \<open>\<open>T[i, j]\<close> for \<open>i\<close> and \<open>j\<close> within the shape.\<close>

definition at2 :: "'a tensor2 \<Rightarrow> nat \<Rightarrow> nat \<Rightarrow> 'a" where
  "at2 T i j = vals T ! (i * ncols T + j)"

text \<open>The tensor of a given shape whose element at \<open>(i, j)\<close> is \<open>f i j\<close>.\<close>

definition tabulate2 :: "nat \<Rightarrow> nat \<Rightarrow> (nat \<Rightarrow> nat \<Rightarrow> 'a) \<Rightarrow> 'a tensor2" where
  "tabulate2 r c f =
     \<lparr>nrows = r, ncols = c, vals = concat (map (\<lambda>i. map (\<lambda>j. f i j) [0..<c]) [0..<r])\<rparr>"

text \<open>\<open>torch.zeros((r, c))\<close>: a negative dimension raises \<open>RuntimeError\<close>.\<close>

definition zeros2 :: "'a arith \<Rightarrow> int \<Rightarrow> int \<Rightarrow> error + 'a tensor2" where
  "zeros2 A r c =
     (if r < 0 \<or> c < 0 then Inl RuntimeError
      else Inr \<lparr>nrows = nat r, ncols = nat c, vals = replicate (nat r * nat c) (fzero A)\<rparr>)"

text \<open>
  \<open>X[r0:r1, c0:c1]\<close> with bounds that are not negative: Python clips both bounds of a
  slice to the length, and a slice that ends before it starts is empty.
\<close>

definition slice2 :: "'a tensor2 \<Rightarrow> nat \<Rightarrow> nat \<Rightarrow> nat \<Rightarrow> nat \<Rightarrow> 'a tensor2" where
  "slice2 X r0 r1 c0 c1 =
     (let a = min r0 (nrows X); b = max a (min r1 (nrows X));
          c = min c0 (ncols X); d = max c (min c1 (ncols X))
      in tabulate2 (b - a) (d - c) (\<lambda>i j. at2 X (a + i) (c + j)))"

text \<open>
  Broadcasting of two dimensions: equal, or one of them is 1; otherwise the framework
  raises \<open>RuntimeError\<close>. \<open>bat T i j\<close> reads the element of \<open>T\<close> that position
  \<open>(i, j)\<close> of the broadcast result uses.
\<close>

definition broadcast_dim :: "nat \<Rightarrow> nat \<Rightarrow> error + nat" where
  "broadcast_dim a b =
     (if a = b then Inr a else if a = 1 then Inr b else if b = 1 then Inr a
      else Inl RuntimeError)"

definition bat :: "'a tensor2 \<Rightarrow> nat \<Rightarrow> nat \<Rightarrow> 'a" where
  "bat T i j = at2 T (if nrows T = 1 then 0 else i) (if ncols T = 1 then 0 else j)"

text \<open>An elementwise binary operator on two 2D tensors, \<open>T * U\<close> and \<open>T + U\<close>.\<close>

definition binop2 :: "('a \<Rightarrow> 'a \<Rightarrow> 'a) \<Rightarrow> 'a tensor2 \<Rightarrow> 'a tensor2 \<Rightarrow> error + 'a tensor2" where
  "binop2 f T U =
     (case broadcast_dim (nrows T) (nrows U) of Inl e \<Rightarrow> Inl e
      | Inr r \<Rightarrow>
     (case broadcast_dim (ncols T) (ncols U) of Inl e \<Rightarrow> Inl e
      | Inr c \<Rightarrow> Inr (tabulate2 r c (\<lambda>i j. f (bat T i j) (bat U i j)))))"

definition tmul :: "'a arith \<Rightarrow> 'a tensor2 \<Rightarrow> 'a tensor2 \<Rightarrow> error + 'a tensor2" where
  "tmul A T U = binop2 (fmul A) T U"


text \<open>\<open>c * K\<close> for an element \<open>c\<close>.\<close>

definition scale2 :: "'a arith \<Rightarrow> 'a \<Rightarrow> 'a tensor2 \<Rightarrow> 'a tensor2" where
  "scale2 A c K = K\<lparr>vals := map (\<lambda>x. fmul A c x) (vals K)\<rparr>"


text \<open>\<open>X[i, j]\<close> and \<open>Y[i, j] = v\<close>: an index outside the shape raises \<open>IndexError\<close>.\<close>

definition getitem2 :: "'a tensor2 \<Rightarrow> nat \<Rightarrow> nat \<Rightarrow> error + 'a" where
  "getitem2 X i j = (if i < nrows X \<and> j < ncols X then Inr (at2 X i j) else Inl IndexError)"

definition setitem2 :: "'a tensor2 \<Rightarrow> nat \<Rightarrow> nat \<Rightarrow> 'a \<Rightarrow> error + 'a tensor2" where
  "setitem2 Y i j v =
     (if i < nrows Y \<and> j < ncols Y then Inr (Y\<lparr>vals := (vals Y)[i * ncols Y + j := v]\<rparr>)
      else Inl IndexError)"

text \<open>
  \<open>Y[r0:r1, c0:c1] += V\<close>: the slice is a view of \<open>Y\<close>, and \<open>V\<close> is broadcast to the
  shape of the slice (each dimension of \<open>V\<close> is that of the slice, or 1); otherwise the
  framework raises \<open>RuntimeError\<close>. Each element of the slice becomes itself plus the
  element of \<open>V\<close>.
\<close>

definition iadd_slice2 ::
  "'a arith \<Rightarrow> 'a tensor2 \<Rightarrow> nat \<Rightarrow> nat \<Rightarrow> nat \<Rightarrow> nat \<Rightarrow> 'a tensor2 \<Rightarrow> error + 'a tensor2" where
  "iadd_slice2 A Y r0 r1 c0 c1 V =
     (let a = min r0 (nrows Y); b = max a (min r1 (nrows Y));
          c = min c0 (ncols Y); d = max c (min c1 (ncols Y))
      in if (nrows V = b - a \<or> nrows V = 1) \<and> (ncols V = d - c \<or> ncols V = 1)
         then Inr (tabulate2 (nrows Y) (ncols Y)
                (\<lambda>p q. if a \<le> p \<and> p < b \<and> c \<le> q \<and> q < d
                       then fadd A (at2 Y p q) (bat V (p - a) (q - c)) else at2 Y p q))
         else Inl RuntimeError)"

text \<open>A \<open>for\<close> loop over a list of indices whose body may raise: the first error ends it.\<close>

fun for_loop :: "nat list \<Rightarrow> (nat \<Rightarrow> 's \<Rightarrow> 'e + 's) \<Rightarrow> 's \<Rightarrow> 'e + 's" where
  "for_loop [] body s = Inr s"
| "for_loop (i # is) body s =
     (case body i s of Inl e \<Rightarrow> Inl e | Inr s' \<Rightarrow> for_loop is body s')"

section \<open>Cross-correlation, transposed convolution and pooling\<close>

text \<open>
  Source: \<^verbatim>\<open>chapter_convolutional-neural-networks/conv-layer.ipynb\<close>.
  \<^verbatim>\<open>
  def corr2d(X, K):
      h, w = K.shape
      Y = torch.zeros((X.shape[0] - h + 1, X.shape[1] - w + 1))
      for i in range(Y.shape[0]):
          for j in range(Y.shape[1]):
              Y[i, j] = (X[i:i + h, j:j + w] * K).sum()
      return Y
  \<close>
\<close>

definition corr2d :: "'a arith \<Rightarrow> 'a tensor2 \<Rightarrow> 'a tensor2 \<Rightarrow> error + 'a tensor2" where
  "corr2d A X K =
     (let h = nrows K; w = ncols K in
      case zeros2 A (int (nrows X) - int h + 1) (int (ncols X) - int w + 1) of
        Inl e \<Rightarrow> Inl e
      | Inr Y0 \<Rightarrow>
          for_loop [0..<nrows Y0] (\<lambda>i Y.
            for_loop [0..<ncols Y] (\<lambda>j Y.
              case tmul A (slice2 X i (i + h) j (j + w)) K of
                Inl e \<Rightarrow> Inl e
              | Inr P \<Rightarrow> setitem2 Y i j (fsum A P)) Y) Y0)"

text \<open>
  Source: \<^verbatim>\<open>chapter_computer-vision/transposed-conv.ipynb\<close>.
  \<^verbatim>\<open>
  def trans_conv(X, K):
      h, w = K.shape
      Y = torch.zeros((X.shape[0] + h - 1, X.shape[1] + w - 1))
      for i in range(X.shape[0]):
          for j in range(X.shape[1]):
              Y[i:i + h, j:j + w] += X[i, j] * K
      return Y
  \<close>
\<close>

definition trans_conv :: "'a arith \<Rightarrow> 'a tensor2 \<Rightarrow> 'a tensor2 \<Rightarrow> error + 'a tensor2" where
  "trans_conv A X K =
     (let h = nrows K; w = ncols K in
      case zeros2 A (int (nrows X) + int h - 1) (int (ncols X) + int w - 1) of
        Inl e \<Rightarrow> Inl e
      | Inr Y0 \<Rightarrow>
          for_loop [0..<nrows X] (\<lambda>i Y.
            for_loop [0..<ncols X] (\<lambda>j Y.
              case getitem2 X i j of
                Inl e \<Rightarrow> Inl e
              | Inr x \<Rightarrow> iadd_slice2 A Y i (i + h) j (j + w) (scale2 A x K)) Y) Y0)"


text \<open>
  Names for what the theorems speak of. The window of \<open>X\<close> of size \<open>h\<close> by \<open>w\<close> at
  \<open>(i, j)\<close>; the tensor of the products of that window with \<open>K\<close>; and the input
  positions \<open>(i, j)\<close> of a transposed convolution that reach the output position
  \<open>(p, q)\<close>, in the order in which the two loops visit them, with what the loops have
  added into \<open>Y[p, q]\<close> after a list of such positions: starting from the zero of
  \<open>torch.zeros\<close>, one \<open>+=\<close> of \<open>X[i, j] * K[p - i, q - j]\<close> for each.
\<close>

definition window :: "'a tensor2 \<Rightarrow> nat \<Rightarrow> nat \<Rightarrow> nat \<Rightarrow> nat \<Rightarrow> 'a tensor2" where
  "window X i j h w = tabulate2 h w (\<lambda>a b. at2 X (i + a) (j + b))"

definition products :: "'a arith \<Rightarrow> 'a tensor2 \<Rightarrow> 'a tensor2 \<Rightarrow> nat \<Rightarrow> nat \<Rightarrow> 'a tensor2" where
  "products A X K i j =
     tabulate2 (nrows K) (ncols K) (\<lambda>a b. fmul A (at2 X (i + a) (j + b)) (at2 K a b))"

definition reaches :: "nat \<Rightarrow> nat \<Rightarrow> nat \<Rightarrow> nat \<Rightarrow> nat \<times> nat \<Rightarrow> bool" where
  "reaches h w p q ij = (fst ij \<le> p \<and> p < fst ij + h \<and> snd ij \<le> q \<and> q < snd ij + w)"

definition accumulated ::
  "'a arith \<Rightarrow> 'a tensor2 \<Rightarrow> 'a tensor2 \<Rightarrow> nat \<Rightarrow> nat \<Rightarrow> (nat \<times> nat) list \<Rightarrow> 'a" where
  "accumulated A X K p q ps =
     fold (\<lambda>ij acc. fadd A acc (fmul A (at2 X (fst ij) (snd ij)) (at2 K (p - fst ij) (q - snd ij))))
       ps (fzero A)"

definition contributions :: "'a tensor2 \<Rightarrow> 'a tensor2 \<Rightarrow> nat \<Rightarrow> nat \<Rightarrow> (nat \<times> nat) list" where
  "contributions X K p q =
     filter (reaches (nrows K) (ncols K) p q) (List.product [0..<nrows X] [0..<ncols X])"

section \<open>Multiple input and output channels\<close>
























section \<open>The framework's 32-bit floating-point numbers\<close>

text \<open>
  The tensors of the notebooks hold \<open>float32\<close> elements, IEEE 754 binary32: a finite
  value is an integer of at most 24 bits times a power of two from \<open>2 ^ -149\<close> to
  \<open>2 ^ 104\<close>, and every operation rounds its exact result to the nearest such
  value, a tie to the one with the even integer. The two zeros are not told apart.
  This instance of \<open>arith\<close> is what the examples below are evaluated with; the theorems
  stated for every \<open>arith\<close> do not depend on it.
\<close>

datatype f32 = Finite real | PosInf | NegInf | NaN

definition pow2 :: "int \<Rightarrow> real" where
  "pow2 e = (if 0 \<le> e then 2 ^ nat e else 1 / 2 ^ nat (- e))"

text \<open>The exponent of the binade of \<open>a\<close>, not below that of the subnormal numbers.\<close>

definition expo :: "real \<Rightarrow> int" where
  "expo a =
     (case List.find (\<lambda>e. pow2 e \<le> a) (rev [- 126..128]) of None \<Rightarrow> - 126 | Some e \<Rightarrow> e)"

definition round_even :: "real \<Rightarrow> int" where
  "round_even x =
     (let f = \<lfloor>x\<rfloor>; d = x - of_int f
      in if d < 1 / 2 then f else if 1 / 2 < d then f + 1 else if even f then f else f + 1)"

definition round32 :: "real \<Rightarrow> f32" where
  "round32 r =
     (let q = pow2 (expo \<bar>r\<bar> - 23); y = of_int (round_even (r / q)) * q
      in if pow2 128 \<le> \<bar>y\<bar> then (if 0 < r then PosInf else NegInf) else Finite y)"

definition f32_add :: "f32 \<Rightarrow> f32 \<Rightarrow> f32" where
  "f32_add x y =
     (case (x, y) of
        (Finite a, Finite b) \<Rightarrow> round32 (a + b)
      | (NaN, _) \<Rightarrow> NaN
      | (_, NaN) \<Rightarrow> NaN
      | (PosInf, NegInf) \<Rightarrow> NaN
      | (NegInf, PosInf) \<Rightarrow> NaN
      | (PosInf, _) \<Rightarrow> PosInf
      | (NegInf, _) \<Rightarrow> NegInf
      | (Finite a, z) \<Rightarrow> z)"



text \<open>The sign of a product or quotient with an infinite operand; a zero counts as positive.\<close>

definition negative :: "f32 \<Rightarrow> bool" where
  "negative x = (case x of Finite a \<Rightarrow> a < 0 | NegInf \<Rightarrow> True | _ \<Rightarrow> False)"

definition signed_inf :: "f32 \<Rightarrow> f32 \<Rightarrow> f32" where
  "signed_inf x y = (if negative x = negative y then PosInf else NegInf)"

definition f32_mul :: "f32 \<Rightarrow> f32 \<Rightarrow> f32" where
  "f32_mul x y =
     (case (x, y) of
        (Finite a, Finite b) \<Rightarrow> round32 (a * b)
      | (NaN, _) \<Rightarrow> NaN
      | (_, NaN) \<Rightarrow> NaN
      | (Finite a, _) \<Rightarrow> if a = 0 then NaN else signed_inf x y
      | (_, Finite b) \<Rightarrow> if b = 0 then NaN else signed_inf x y
      | _ \<Rightarrow> signed_inf x y)"

definition f32_div :: "f32 \<Rightarrow> f32 \<Rightarrow> f32" where
  "f32_div x y =
     (case (x, y) of
        (Finite a, Finite b) \<Rightarrow>
          if b = 0 then (if a = 0 then NaN else signed_inf x y) else round32 (a / b)
      | (NaN, _) \<Rightarrow> NaN
      | (_, NaN) \<Rightarrow> NaN
      | (Finite a, _) \<Rightarrow> Finite 0
      | (_, Finite b) \<Rightarrow> signed_inf x y
      | _ \<Rightarrow> NaN)"

text \<open>The greater of two values; NaN if one of them is NaN, as \<open>max()\<close> of a tensor gives.\<close>

definition f32_max :: "f32 \<Rightarrow> f32 \<Rightarrow> f32" where
  "f32_max x y =
     (case (x, y) of
        (Finite a, Finite b) \<Rightarrow> Finite (max a b)
      | (NaN, _) \<Rightarrow> NaN
      | (_, NaN) \<Rightarrow> NaN
      | (PosInf, _) \<Rightarrow> PosInf
      | (_, PosInf) \<Rightarrow> PosInf
      | (NegInf, z) \<Rightarrow> z
      | (z, NegInf) \<Rightarrow> z)"

text \<open>
  The reductions. \<open>sum()\<close> adds the elements one after the other, in \<open>float32\<close>;
  \<open>mean()\<close> divides that sum by the number of elements, which for no element is
  \<open>0 / 0\<close>, NaN; \<open>max()\<close> is taken of a tensor that has an element. An entry of
  \<open>matmul\<close> is accumulated along the inner dimension with fused multiply-add, one
  rounding for each product added, as the kernels of the framework do on processors
  that have the instruction.
\<close>

definition f32_sum :: "f32 tensor2 \<Rightarrow> f32" where
  "f32_sum T = fold (\<lambda>x acc. f32_add acc x) (vals T) (Finite 0)"

definition f32_mean :: "f32 tensor2 \<Rightarrow> f32" where
  "f32_mean T = f32_div (f32_sum T) (round32 (real (length (vals T))))"

definition f32_maximum :: "f32 tensor2 \<Rightarrow> f32" where
  "f32_maximum T = fold (\<lambda>x acc. f32_max acc x) (tl (vals T)) (hd (vals T))"

definition f32_fma :: "f32 \<Rightarrow> f32 \<Rightarrow> f32 \<Rightarrow> f32" where
  "f32_fma x y z =
     (case (x, y, z) of
        (Finite a, Finite b, Finite c) \<Rightarrow> round32 (a * b + c)
      | _ \<Rightarrow> f32_add (f32_mul x y) z)"

definition f32_matmul :: "f32 tensor2 \<Rightarrow> f32 tensor2 \<Rightarrow> nat \<Rightarrow> nat \<Rightarrow> f32" where
  "f32_matmul P Q i j =
     fold (\<lambda>k acc. f32_fma (at2 P i k) (at2 Q k j) acc) [0..<ncols P] (Finite 0)"

definition float32 :: "f32 arith" where
  "float32 =
     \<lparr>fzero = Finite 0, fmul = f32_mul, fadd = f32_add, fsum = f32_sum, fmean = f32_mean,
      fmax = f32_maximum, fmatmul = f32_matmul\<rparr>"



text \<open>The real number that an element stands for, when it is finite.\<close>

definition exact :: "f32 \<Rightarrow> real" where
  "exact x = (case x of Finite a \<Rightarrow> a | _ \<Rightarrow> 0)"

text \<open>
  The tensor of the real numbers that the elements of a tensor stand for, and the sums of
  the claims taken in the real numbers, without rounding: the cross-correlation at
  \<open>(i, j)\<close>, the transposed convolution at \<open>(p, q)\<close>, and the mean of a list.
\<close>

definition reals :: "f32 tensor2 \<Rightarrow> real tensor2" where
  "reals T = \<lparr>nrows = nrows T, ncols = ncols T, vals = map exact (vals T)\<rparr>"

definition cross_correlation :: "real tensor2 \<Rightarrow> real tensor2 \<Rightarrow> nat \<Rightarrow> nat \<Rightarrow> real" where
  "cross_correlation X K i j =
     (\<Sum>a<nrows K. \<Sum>b<ncols K. at2 X (i + a) (j + b) * at2 K a b)"

definition transposed_convolution :: "real tensor2 \<Rightarrow> real tensor2 \<Rightarrow> nat \<Rightarrow> nat \<Rightarrow> real" where
  "transposed_convolution X K p q =
     (\<Sum>(i, j)\<leftarrow>contributions X K p q. at2 X i j * at2 K (p - i) (q - j))"


section \<open>Properties of \<open>tokenize\<close>\<close>

lemma split_from_nospace:
  "\<forall>c\<in>set w. \<not> isspace c \<Longrightarrow> split_from cur w = (if cur @ w = [] then [] else [cur @ w])"
  by (induction w arbitrary: cur) auto

lemma split_from_space:
  "isspace s \<Longrightarrow>
     split_from cur (a @ s # b) = split_from cur a @ split_from [] b"
  by (induction a arbitrary: cur) auto

lemma split_from_nonempty:
  "t \<in> set (split_from cur cs) \<Longrightarrow> t \<noteq> []"
  by (induction cur cs rule: split_from.induct) (auto split: if_splits)

lemma split_from_no_space:
  "t \<in> set (split_from cur cs) \<Longrightarrow> \<forall>c\<in>set cur. \<not> isspace c \<Longrightarrow> c \<in> set t \<Longrightarrow> \<not> isspace c"
  by (induction cur cs arbitrary: t rule: split_from.induct) (auto split: if_splits)

lemma concat_split_from:
  "concat (split_from cur cs) = cur @ filter (\<lambda>c. \<not> isspace c) cs"
  by (induction cur cs rule: split_from.induct) auto

lemma split_tokens: "t \<in> set (split line) \<Longrightarrow> t \<noteq> [] \<and> (\<forall>c\<in>set t. \<not> isspace c)"
  unfolding split_def
  using split_from_nonempty [of t "[]" line] split_from_no_space [of t "[]" line]
  by simp

lemma concat_split: "concat (split line) = filter (\<lambda>c. \<not> isspace c) line"
  by (simp add: split_def concat_split_from)

lemma split_at_space: "isspace s \<Longrightarrow> split (a @ s # b) = split a @ split b"
  by (simp add: split_def split_from_space)

lemma split_word: "\<forall>c\<in>set w. \<not> isspace c \<Longrightarrow> split w = (if w = [] then [] else [w])"
  using split_from_nospace [of w "[]"] by (simp add: split_def)

lemma split_line_props:
  "(\<forall>t\<in>set (split line). t \<noteq> [] \<and> (\<forall>c\<in>set t. \<not> isspace c))
   \<and> concat (split line) = filter (\<lambda>c. \<not> isspace c) line
   \<and> (\<forall>a s b. isspace s \<and> line = a @ s # b \<longrightarrow> split line = split a @ split b)
   \<and> ((\<forall>c\<in>set line. \<not> isspace c) \<longrightarrow> split line = (if line = [] then [] else [line]))"
proof (intro conjI)
  show "\<forall>t\<in>set (split line). t \<noteq> [] \<and> (\<forall>c\<in>set t. \<not> isspace c)"
    using split_tokens by blast
  show "concat (split line) = filter (\<lambda>c. \<not> isspace c) line"
    by (rule concat_split)
  show "\<forall>a s b. isspace s \<and> line = a @ s # b \<longrightarrow> split line = split a @ split b"
    using split_at_space by blast
  show "(\<forall>c\<in>set line. \<not> isspace c) \<longrightarrow> split line = (if line = [] then [] else [line])"
    using split_word by blast
qed

lemma list_of_str_props:
  "length (list_of_str line) = length line \<and> (\<forall>i<length line. list_of_str line ! i = [line ! i])"
  by (simp add: list_of_str_def)

text \<open>
  Claim C9. For every list of lines, \<open>tokenize(lines, 'word')\<close> prints nothing and returns
  \<open>[line.split() for line in lines]\<close>, \<open>tokenize(lines, 'char')\<close> prints nothing and
  returns \<open>[list(line) for line in lines]\<close>, and the omitted argument means
  \<open>'word'\<close>. For each line, the words are not empty and hold no whitespace, their
  concatenation is the line without its whitespace, a whitespace character splits the
  line at that place, and a line without whitespace is one word; \<open>list(line)\<close> has one
  string of length one per character.
\<close>

theorem tokenize_word_char:
  "tokenize lines (Some ''word'') = ([], Some (map split lines))
   \<and> tokenize lines (Some ''char'') = ([], Some (map list_of_str lines))
   \<and> tokenize lines None = tokenize lines (Some ''word'')
   \<and> (\<forall>line\<in>set lines.
        ((\<forall>t\<in>set (split line). t \<noteq> [] \<and> (\<forall>c\<in>set t. \<not> isspace c))
        \<and> concat (split line) = filter (\<lambda>c. \<not> isspace c) line
        \<and> (\<forall>a s b. isspace s \<and> line = a @ s # b \<longrightarrow> split line = split a @ split b)
        \<and> ((\<forall>c\<in>set line. \<not> isspace c) \<longrightarrow> split line = (if line = [] then [] else [line])))
        \<and> (length (list_of_str line) = length line
        \<and> (\<forall>i<length line. list_of_str line ! i = [line ! i])))"
proof -
  have w: "tokenize lines (Some ''word'') = ([], Some (map split lines))"
    by (simp add: tokenize_def)
  have c: "tokenize lines (Some ''char'') = ([], Some (map list_of_str lines))"
    by (simp add: tokenize_def)
  have d: "tokenize lines None = tokenize lines (Some ''word'')"
    by (simp add: tokenize_def)
  have q: "\<forall>line\<in>set lines.
        ((\<forall>t\<in>set (split line). t \<noteq> [] \<and> (\<forall>c\<in>set t. \<not> isspace c))
        \<and> concat (split line) = filter (\<lambda>c. \<not> isspace c) line
        \<and> (\<forall>a s b. isspace s \<and> line = a @ s # b \<longrightarrow> split line = split a @ split b)
        \<and> ((\<forall>c\<in>set line. \<not> isspace c) \<longrightarrow> split line = (if line = [] then [] else [line])))
        \<and> (length (list_of_str line) = length line
        \<and> (\<forall>i<length line. list_of_str line ! i = [line ! i]))"
  proof (rule ballI)
    fix line
    show "((\<forall>t\<in>set (split line). t \<noteq> [] \<and> (\<forall>c\<in>set t. \<not> isspace c))
        \<and> concat (split line) = filter (\<lambda>c. \<not> isspace c) line
        \<and> (\<forall>a s b. isspace s \<and> line = a @ s # b \<longrightarrow> split line = split a @ split b)
        \<and> ((\<forall>c\<in>set line. \<not> isspace c) \<longrightarrow> split line = (if line = [] then [] else [line])))
        \<and> (length (list_of_str line) = length line
        \<and> (\<forall>i<length line. list_of_str line ! i = [line ! i]))"
      by (rule conjI [OF split_line_props list_of_str_props])
  qed
  show ?thesis
    by (rule conjI [OF w conjI [OF c conjI [OF d q]]])
qed

theorem tokenize_word_char_witness:
  "tokenize [''the time  machine'', '' by h g wells ''] (Some ''word'')
     = ([], Some [[''the'', ''time'', ''machine''], [''by'', ''h'', ''g'', ''wells'']])
   \<and> tokenize [''the time  machine'', '' by h g wells ''] (Some ''char'')
     = ([], Some [[''t'', ''h'', ''e'', '' '', ''t'', ''i'', ''m'', ''e'', '' '', '' '',
                   ''m'', ''a'', ''c'', ''h'', ''i'', ''n'', ''e''],
                  ['' '', ''b'', ''y'', '' '', ''h'', '' '', ''g'', '' '',
                   ''w'', ''e'', ''l'', ''l'', ''s'', '' '']])
   \<and> tokenize [''the time  machine'', '' by h g wells ''] None
     = ([], Some [[''the'', ''time'', ''machine''], [''by'', ''h'', ''g'', ''wells'']])
   \<and> concat (split ''the time  machine'') = ''thetimemachine''"
  using tokenize_word_char [of "[''the time  machine'', '' by h g wells '']"]
  by (simp add: split_def list_of_str_def isspace_def)

section \<open>Properties of \<open>Vocab\<close>\<close>

lemma fst_add_token: "fst (add_token a st) = fst st @ [a]"
  by (simp add: add_token_def Let_def)

lemma snd_add_token: "snd (add_token a st) = (snd st)(a \<mapsto> length (fst st))"
  by (simp add: add_token_def Let_def)

lemma fold_add_token_fst: "fst (fold add_token ts st) = fst st @ ts"
  by (induction ts arbitrary: st) (simp_all add: fst_add_token)

lemma fold_add_token_notin:
  "t \<notin> set ts \<Longrightarrow> snd (fold add_token ts st) t = snd st t"
  by (induction ts arbitrary: st) (simp_all add: snd_add_token)

lemma fold_add_token_sound:
  "snd (fold add_token ts st) t = Some j \<Longrightarrow>
   (\<forall>t j. snd st t = Some j \<longrightarrow> j < length (fst st) \<and> fst st ! j = t) \<Longrightarrow>
   j < length (fst st @ ts) \<and> (fst st @ ts) ! j = t"
proof (induction ts arbitrary: st)
  case Nil
  then show ?case by simp
next
  case (Cons a ts)
  have inv: "\<forall>t j. snd (add_token a st) t = Some j \<longrightarrow>
      j < length (fst (add_token a st)) \<and> fst (add_token a st) ! j = t"
  proof (intro allI impI)
    fix t j
    assume h: "snd (add_token a st) t = Some j"
    show "j < length (fst (add_token a st)) \<and> fst (add_token a st) ! j = t"
    proof (cases "t = a")
      case True
      with h show ?thesis by (auto simp: fst_add_token snd_add_token)
    next
      case False
      with h have "snd st t = Some j" by (simp add: snd_add_token)
      with Cons.prems(2) have "j < length (fst st) \<and> fst st ! j = t" by blast
      then show ?thesis by (simp add: fst_add_token nth_append)
    qed
  qed
  from Cons.prems(1) have "snd (fold add_token ts (add_token a st)) t = Some j" by simp
  from Cons.IH [OF this inv] show ?case by (simp add: fst_add_token)
qed

lemma fold_add_token_distinct:
  "distinct (fst st @ ts) \<Longrightarrow> i < length ts \<Longrightarrow>
   snd (fold add_token ts st) (ts ! i) = Some (length (fst st) + i)"
proof (induction ts arbitrary: st i)
  case Nil
  then show ?case by simp
next
  case (Cons a ts)
  show ?case
  proof (cases i)
    case 0
    from Cons.prems(1) have "a \<notin> set ts" by simp
    then have "snd (fold add_token ts (add_token a st)) a = snd (add_token a st) a"
      by (rule fold_add_token_notin)
    with 0 show ?thesis by (simp add: snd_add_token)
  next
    case (Suc k)
    from Cons.prems(1) have d: "distinct (fst (add_token a st) @ ts)"
      by (simp add: fst_add_token)
    from Suc Cons.prems(2) have k: "k < length ts" by simp
    from Cons.IH [OF d k] Suc show ?thesis by (simp add: fst_add_token)
  qed
qed

lemma map_of_counter_add:
  "map_of (counter_add kvs t) =
     (map_of kvs)(t \<mapsto> (case map_of kvs t of None \<Rightarrow> 1 | Some c \<Rightarrow> Suc c))"
  by (induction kvs t rule: counter_add.induct) (auto simp: fun_upd_twist)

lemma keys_counter_add:
  "map fst (counter_add kvs t) =
     (if t \<in> set (map fst kvs) then map fst kvs else map fst kvs @ [t])"
  by (induction kvs t rule: counter_add.induct) auto

lemma distinct_counter_add:
  "distinct (map fst kvs) \<Longrightarrow> distinct (map fst (counter_add kvs t))"
  by (simp add: keys_counter_add)

lemma fold_counter_add:
  "distinct (map fst acc) \<Longrightarrow>
   distinct (map fst (fold (\<lambda>t cnt. counter_add cnt t) xs acc)) \<and>
   map_of (fold (\<lambda>t cnt. counter_add cnt t) xs acc) t =
     (if t \<in> set xs
      then Some (count_list xs t + (case map_of acc t of None \<Rightarrow> 0 | Some c \<Rightarrow> c))
      else map_of acc t)"
proof (induction xs arbitrary: acc)
  case Nil
  then show ?case by simp
next
  case (Cons x xs)
  from Cons.prems have d: "distinct (map fst (counter_add acc x))"
    by (rule distinct_counter_add)
  from Cons.IH [OF d] show ?case
    by (auto simp: map_of_counter_add split: option.splits)
qed

lemma Counter_items:
  "(t, c) \<in> set (Counter xs) \<longleftrightarrow> t \<in> set xs \<and> c = count_list xs t"
proof -
  have d: "distinct (map fst (Counter xs))"
    and m: "map_of (Counter xs) t = (if t \<in> set xs then Some (count_list xs t) else None)"
    using fold_counter_add [of "[]" xs t] by (simp_all add: Counter_def)
  from d have "(t, c) \<in> set (Counter xs) \<longleftrightarrow> map_of (Counter xs) t = Some c"
    by simp
  with m show ?thesis by auto
qed

lemma distinct_Counter: "distinct (map fst (Counter xs))"
  using fold_counter_add [of "[]" xs] by (simp add: Counter_def)

lemma set_sorted_by_freq: "set (sorted_by_freq items) = set items"
  by (simp add: sorted_by_freq_def)

lemma idx_to_token_Vocab:
  "idx_to_token (Vocab tokens_arg min_freq reserved_arg) =
     uniq_tokens_of
       (sorted_by_freq (count_corpus (case tokens_arg of None \<Rightarrow> Tokens1D [] | Some ts \<Rightarrow> ts)))
       min_freq (case reserved_arg of None \<Rightarrow> [] | Some rs \<Rightarrow> rs)"
  by (simp add: Vocab_def Let_def fold_add_token_fst)

lemma token_to_idx_Vocab:
  "token_to_idx (Vocab tokens_arg min_freq reserved_arg) =
     snd (fold add_token (idx_to_token (Vocab tokens_arg min_freq reserved_arg)) ([], Map.empty))"
  by (simp add: Vocab_def Let_def fold_add_token_fst)

lemma unk_Vocab: "unk (Vocab tokens_arg min_freq reserved_arg) = 0"
  by (simp add: Vocab_def Let_def)

lemma uniq_tokens_prefix:
  "take (Suc (length rs)) (uniq_tokens_of freqs min_freq rs) = ''<unk>'' # rs"
  by (simp add: uniq_tokens_of_def Let_def)

lemma set_uniq_tokens:
  "set (uniq_tokens_of freqs min_freq rs) =
     insert ''<unk>'' (set rs) \<union> {t. \<exists>c. (t, c) \<in> set freqs \<and> min_freq \<le> int c}"
  by (auto simp: uniq_tokens_of_def Let_def image_iff)

lemma getitem_absent:
  assumes "t \<notin> set (idx_to_token (Vocab tokens_arg min_freq reserved_arg))"
  shows "getitem (Vocab tokens_arg min_freq reserved_arg) (Token t) = Index 0"
proof -
  let ?v = "Vocab tokens_arg min_freq reserved_arg"
  have "token_to_idx ?v t = None"
    unfolding token_to_idx_Vocab
    using fold_add_token_notin [OF assms, of "([], Map.empty)"] by simp
  then show ?thesis by (simp add: unk_Vocab)
qed

lemma absent_from_corpus:
  assumes "t \<noteq> ''<unk>''" and "t \<notin> set rs"
    and "t \<notin> set (flatten_corpus c) \<or> int (count_list (flatten_corpus c) t) < min_freq"
  shows "t \<notin> set (uniq_tokens_of (sorted_by_freq (count_corpus c)) min_freq rs)"
  using assms
  by (auto simp: set_uniq_tokens set_sorted_by_freq count_corpus_def Counter_items)

text \<open>
  Claim C6. For every vocabulary, \<open>idx_to_token[0]\<close> is \<open><unk>\<close> and \<open>unk\<close> is 0;
  a token that is not stored (in particular one that is not \<open><unk>\<close>, not reserved,
  and either absent from the corpus or rarer than \<open>min_freq\<close>) is looked up as 0; a
  list argument is looked up elementwise; and the reserved tokens stand at the indices 1
  to \<open>len(reserved_tokens)\<close> in the given order. The lookup is a total function: it has
  no error outcome.
\<close>

theorem vocab_lookup_total:
  "let v = Vocab tokens_arg min_freq reserved_arg;
       rs = (case reserved_arg of None \<Rightarrow> [] | Some rs \<Rightarrow> rs);
       ts = flatten_corpus (case tokens_arg of None \<Rightarrow> Tokens1D [] | Some c \<Rightarrow> c)
   in idx_to_token v ! 0 = ''<unk>'' \<and> unk v = 0
      \<and> (\<forall>t. t \<notin> set (idx_to_token v) \<longrightarrow> getitem v (Token t) = Index 0)
      \<and> (\<forall>t. t \<noteq> ''<unk>'' \<and> t \<notin> set rs
               \<and> (t \<notin> set ts \<or> int (count_list ts t) < min_freq)
             \<longrightarrow> getitem v (Token t) = Index 0)
      \<and> (\<forall>args. getitem v (TokenSeq args) = IndexSeq (map (getitem v) args))
      \<and> Suc (length rs) \<le> len v
      \<and> (\<forall>k<length rs. idx_to_token v ! Suc k = rs ! k)"
proof -
  define v where "v = Vocab tokens_arg min_freq reserved_arg"
  define rs where "rs = (case reserved_arg of None \<Rightarrow> [] | Some rs \<Rightarrow> rs)"
  define c where "c = (case tokens_arg of None \<Rightarrow> Tokens1D [] | Some c \<Rightarrow> c)"
  define ts where "ts = flatten_corpus c"
  have i2t: "idx_to_token v = uniq_tokens_of (sorted_by_freq (count_corpus c)) min_freq rs"
    by (simp add: v_def rs_def c_def idx_to_token_Vocab)
  have pre: "take (Suc (length rs)) (idx_to_token v) = ''<unk>'' # rs"
    by (simp add: i2t uniq_tokens_prefix)
  have len: "Suc (length rs) \<le> len v"
    by (simp add: len_def i2t uniq_tokens_of_def Let_def)
  have a0: "idx_to_token v ! 0 = ''<unk>''"
    by (simp add: i2t uniq_tokens_of_def Let_def)
  have a1: "unk v = 0" by (simp add: v_def unk_Vocab)
  have a2: "\<forall>t. t \<notin> set (idx_to_token v) \<longrightarrow> getitem v (Token t) = Index 0"
    unfolding v_def using getitem_absent by blast
  have a3: "\<forall>t. t \<noteq> ''<unk>'' \<and> t \<notin> set rs
               \<and> (t \<notin> set ts \<or> int (count_list ts t) < min_freq)
             \<longrightarrow> getitem v (Token t) = Index 0"
  proof (intro allI impI)
    fix t
    assume h: "t \<noteq> ''<unk>'' \<and> t \<notin> set rs
               \<and> (t \<notin> set ts \<or> int (count_list ts t) < min_freq)"
    then have "t \<notin> set (idx_to_token v)"
      unfolding i2t ts_def by (intro absent_from_corpus) simp_all
    with a2 show "getitem v (Token t) = Index 0" by blast
  qed
  have a4: "\<forall>args. getitem v (TokenSeq args) = IndexSeq (map (getitem v) args)"
    by simp
  have a5: "\<forall>k<length rs. idx_to_token v ! Suc k = rs ! k"
  proof (intro allI impI)
    fix k assume k: "k < length rs"
    have "idx_to_token v ! Suc k = take (Suc (length rs)) (idx_to_token v) ! Suc k"
      using k by simp
    also have "\<dots> = rs ! k" by (simp add: pre)
    finally show "idx_to_token v ! Suc k = rs ! k" .
  qed
  from a0 a1 a2 a3 a4 len a5 show ?thesis
    unfolding Let_def v_def rs_def ts_def c_def by (intro conjI)
qed

lemma ex_vocab:
  "Vocab (Some (Tokens2D [[''a'', ''b'', ''a''], [''c'', ''b'', ''a'']])) 2 (Some [''<pad>''])
     = \<lparr>token_freqs = [(''a'', 3), (''b'', 2), (''c'', 1)], unk = 0,
        idx_to_token = [''<unk>'', ''<pad>'', ''a'', ''b''],
        token_to_idx = [''<unk>'' \<mapsto> 0, ''<pad>'' \<mapsto> 1, ''a'' \<mapsto> 2, ''b'' \<mapsto> 3]\<rparr>"
  by (simp add: Vocab_def count_corpus_def Counter_def sorted_by_freq_def uniq_tokens_of_def
      add_token_def Let_def numeral_2_eq_2 numeral_3_eq_3)

theorem vocab_lookup_total_witness:
  "let v = Vocab (Some (Tokens2D [[''a'', ''b'', ''a''], [''c'', ''b'', ''a'']])) 2 (Some [''<pad>''])
   in idx_to_token v = [''<unk>'', ''<pad>'', ''a'', ''b''] \<and> unk v = 0
      \<and> ''zzz'' \<notin> set (idx_to_token v) \<and> getitem v (Token ''zzz'') = Index 0
      \<and> int (count_list [''a'', ''b'', ''a'', ''c'', ''b'', ''a''] ''c'') < 2
      \<and> getitem v (Token ''c'') = Index 0
      \<and> getitem v (TokenSeq [Token ''a'', Token ''c'', TokenSeq [Token ''<pad>'']])
          = IndexSeq [Index 2, Index 0, IndexSeq [Index 1]]
      \<and> idx_to_token v ! Suc 0 = ''<pad>''"
  using vocab_lookup_total [of "Some (Tokens2D [[''a'', ''b'', ''a''], [''c'', ''b'', ''a'']])" 2
      "Some [''<pad>'']"]
  by (simp add: ex_vocab Let_def)

text \<open>
  Claim C5. The claim fails when the reserved tokens repeat a token or hold
  \<open><unk>\<close>: with \<open>reserved_tokens = ['<unk>']\<close> the token \<open><unk>\<close> is stored at the
  indices 0 and 1, and the token at index 0 is looked up as 1.
\<close>

theorem vocab_duplicate_reserved:
  "let v = Vocab None 0 (Some [''<unk>''])
   in idx_to_token v = [''<unk>'', ''<unk>''] \<and> len v = 2
      \<and> to_tokens v (OneIndex 0) = Inr (OneToken ''<unk>'')
      \<and> getitem v (Token ''<unk>'') = Index 1"
  by (simp add: Vocab_def count_corpus_def Counter_def sorted_by_freq_def uniq_tokens_of_def
      add_token_def Let_def len_def py_index_def)

lemma distinct_keys_insort_key:
  "distinct (map g (insort_key f x xs)) \<longleftrightarrow> g x \<notin> g ` set xs \<and> distinct (map g xs)"
  by (induction xs) (auto simp: set_insort_key)

lemma distinct_keys_sort_key:
  "distinct (map g (sort_key f xs)) \<longleftrightarrow> distinct (map g xs)"
  by (induction xs) (simp_all add: distinct_keys_insort_key)

lemma distinct_uniq_tokens:
  assumes "distinct (''<unk>'' # rs)" and "distinct (map fst freqs)"
  shows "distinct (uniq_tokens_of freqs min_freq rs)"
proof -
  have "distinct (map fst (filter P freqs))" for P
    using assms(2) by (rule distinct_map_filter)
  with assms(1) show ?thesis
    by (auto simp: uniq_tokens_of_def Let_def)
qed

lemma fold_add_token_in:
  "t \<in> set ts \<Longrightarrow> \<exists>j. snd (fold add_token ts st) t = Some j"
proof (induction ts arbitrary: st)
  case Nil
  then show ?case by simp
next
  case (Cons a ts)
  show ?case
  proof (cases "t \<in> set ts")
    case True
    from Cons.IH [OF this] show ?thesis by simp
  next
    case False
    with Cons.prems have "t = a" by simp
    with False fold_add_token_notin [of t ts "add_token a st"] show ?thesis
      by (simp add: snd_add_token)
  qed
qed

text \<open>From a stored token to its index and back: holds for every vocabulary.\<close>

lemma vocab_token_roundtrip:
  assumes "t \<in> set (idx_to_token (Vocab tokens_arg min_freq reserved_arg))"
  shows "\<exists>j < len (Vocab tokens_arg min_freq reserved_arg).
           getitem (Vocab tokens_arg min_freq reserved_arg) (Token t) = Index j
           \<and> to_tokens (Vocab tokens_arg min_freq reserved_arg) (OneIndex (int j))
               = Inr (OneToken t)"
proof -
  let ?v = "Vocab tokens_arg min_freq reserved_arg"
  from fold_add_token_in [OF assms, of "([], Map.empty)"]
  obtain j where j: "token_to_idx ?v t = Some j"
    unfolding token_to_idx_Vocab [symmetric] by blast
  then have "snd (fold add_token (idx_to_token ?v) ([], Map.empty)) t = Some j"
    by (simp add: token_to_idx_Vocab [symmetric])
  from fold_add_token_sound [OF this]
  have "j < length (idx_to_token ?v) \<and> idx_to_token ?v ! j = t" by simp
  with j show ?thesis
    by (auto simp: len_def py_index_def)
qed

text \<open>From an index to its token and back: holds when the reserved tokens are distinct
  and different from \<open><unk>\<close>.\<close>

lemma vocab_index_roundtrip:
  assumes "distinct (''<unk>'' # (case reserved_arg of None \<Rightarrow> [] | Some rs \<Rightarrow> rs))"
    and "i < len (Vocab tokens_arg min_freq reserved_arg)"
  shows "to_tokens (Vocab tokens_arg min_freq reserved_arg) (OneIndex (int i))
           = Inr (OneToken (idx_to_token (Vocab tokens_arg min_freq reserved_arg) ! i))
         \<and> getitem (Vocab tokens_arg min_freq reserved_arg)
              (Token (idx_to_token (Vocab tokens_arg min_freq reserved_arg) ! i)) = Index i"
proof -
  let ?v = "Vocab tokens_arg min_freq reserved_arg"
  have "distinct (map fst (sorted_by_freq (count_corpus c)))" for c
    by (simp add: sorted_by_freq_def distinct_keys_sort_key count_corpus_def distinct_Counter)
  with assms(1) have d: "distinct (idx_to_token ?v)"
    unfolding idx_to_token_Vocab by (intro distinct_uniq_tokens)
  from assms(2) have i: "i < length (idx_to_token ?v)" by (simp add: len_def)
  from d have "distinct (fst ([], Map.empty :: string \<rightharpoonup> nat) @ idx_to_token ?v)" by simp
  from fold_add_token_distinct [OF this i]
  have "token_to_idx ?v (idx_to_token ?v ! i) = Some i"
    by (simp add: token_to_idx_Vocab [symmetric])
  with i show ?thesis by (simp add: py_index_def)
qed

section \<open>Rounding to \<open>float32\<close>\<close>

lemma pow2_power_int: "pow2 e = power_int 2 e"
  by (simp add: pow2_def power_int_def inverse_eq_divide power_one_over)

lemma expo_upper:
  assumes "a < 2 ^ 24"
  shows "expo a \<le> 23"
proof (cases "List.find (\<lambda>e. pow2 e \<le> a) (rev [- 126..128])")
  case None
  then show ?thesis by (simp add: expo_def)
next
  case (Some e)
  then have "pow2 e \<le> a" by (auto simp: find_Some_iff)
  with assms have "power_int (2::real) e < power_int 2 24"
    by (simp add: pow2_power_int)
  then have "e < 24" by (rule power_int_le_imp_less_exp [rotated]) simp_all
  with Some show ?thesis by (simp add: expo_def)
qed

lemma round_even_of_int: "round_even (of_int m) = m"
  by (simp add: round_even_def)

lemma round32_of_int:
  assumes "\<bar>n\<bar> < 2 ^ 24"
  shows "round32 (of_int n) = Finite (of_int n)"
proof -
  define e where "e = expo \<bar>of_int n :: real\<bar>"
  define k where "k = nat (23 - e)"
  have "\<bar>of_int n :: real\<bar> < 2 ^ 24"
    using assms by (metis of_int_abs of_int_less_numeral_power_cancel_iff)
  then have e: "e \<le> 23" unfolding e_def by (rule expo_upper)
  then have q: "pow2 (e - 23) = 1 / 2 ^ k"
    by (cases "e = 23") (simp_all add: pow2_def k_def)
  have "of_int n / pow2 (e - 23) = (of_int (n * 2 ^ k) :: real)"
    by (simp add: q)
  then have r: "round_even (of_int n / pow2 (e - 23)) = n * 2 ^ k"
    by (simp only: round_even_of_int)
  have y: "of_int (n * 2 ^ k) * pow2 (e - 23) = (of_int n :: real)"
    by (simp add: q)
  have "\<bar>of_int n :: real\<bar> < pow2 128"
    using \<open>\<bar>of_int n :: real\<bar> < 2 ^ 24\<close> by (simp add: pow2_def)
  then show ?thesis
    by (simp add: round32_def Let_def e_def [symmetric] r y del: of_int_mult of_int_power)
qed

lemma round32_numeral:
  "numeral k < (16777216::int) \<Longrightarrow> round32 (numeral k) = Finite (numeral k)"
  using round32_of_int [of "numeral k"] by simp

lemma round32_0: "round32 0 = Finite 0"
  using round32_of_int [of 0] by simp

lemma round32_1: "round32 1 = Finite 1"
  using round32_of_int [of 1] by simp

lemma round32_neg_numeral:
  "numeral k < (16777216::int) \<Longrightarrow> round32 (- numeral k) = Finite (- numeral k)"
  using round32_of_int [of "- numeral k"] by simp

lemma round32_neg_1: "round32 (- 1) = Finite (- 1)"
  using round32_of_int [of "- 1"] by simp

lemmas round32_small = round32_numeral round32_0 round32_1 round32_neg_numeral round32_neg_1

lemma f32_add_Finite: "f32_add (Finite a) (Finite b) = round32 (a + b)"
  by (simp add: f32_add_def)

lemma f32_mul_Finite: "f32_mul (Finite a) (Finite b) = round32 (a * b)"
  by (simp add: f32_mul_def)

lemma f32_max_Finite: "f32_max (Finite a) (Finite b) = Finite (max a b)"
  by (simp add: f32_max_def)

lemma f32_div_Finite: "b \<noteq> 0 \<Longrightarrow> f32_div (Finite a) (Finite b) = round32 (a / b)"
  by (simp add: f32_div_def)

lemma f32_fma_Finite: "f32_fma (Finite a) (Finite b) (Finite c) = round32 (a * b + c)"
  by (simp add: f32_fma_def)

lemmas float32_ops = float32_def f32_sum_def f32_mean_def f32_maximum_def f32_matmul_def
  f32_add_Finite f32_mul_Finite f32_max_Finite f32_div_Finite f32_fma_Finite round32_small

lemma expo_16777217: "expo 16777217 = 24"
  by (simp add: expo_def pow2_def upto_rec1)

lemma round32_16777216: "round32 16777216 = Finite 16777216"
  by (simp add: round32_def expo_def pow2_def round_even_def Let_def upto_rec1)

lemma round32_16777217: "round32 16777217 = Finite 16777216"
  by (simp add: round32_def expo_16777217 pow2_def round_even_def Let_def)

section \<open>Lemmas on tensors and loops\<close>

lemma idx_lt: "i < r \<Longrightarrow> j < c \<Longrightarrow> i * c + j < r * (c::nat)"
proof -
  assume i: "i < r" and j: "j < c"
  have "i * c + j < i * c + c" using j by simp
  also have "\<dots> = Suc i * c" by simp
  also have "\<dots> \<le> r * c" using i by (intro mult_le_mono1) simp
  finally show ?thesis .
qed

lemma idx_inj:
  assumes "j < c" and "j' < (c::nat)"
  shows "i * c + j = i' * c + j' \<longleftrightarrow> i = i' \<and> j = j'"
proof
  assume e: "i * c + j = i' * c + j'"
  have "(i * c + j) div c = i" using assms by simp
  moreover have "(i' * c + j') div c = i'" using assms by simp
  ultimately have "i = i'" using e by simp
  with e show "i = i' \<and> j = j'" by simp
qed simp

lemma length_concat_rows:
  "length (concat (map (\<lambda>i. map (f i) [0..<c]) [0..<r])) = r * c"
  by (induction r) simp_all

lemma nth_concat_rows:
  "i < r \<Longrightarrow> j < c \<Longrightarrow> concat (map (\<lambda>i. map (f i) [0..<c]) [0..<r]) ! (i * c + j) = f i j"
proof (induction r)
  case 0
  then show ?case by simp
next
  case (Suc r)
  show ?case
  proof (cases "i < r")
    case True
    with Suc.prems have "i * c + j < r * c" by (intro idx_lt)
    with Suc.IH [OF True Suc.prems(2)] show ?thesis
      by (simp add: nth_append length_concat_rows)
  next
    case False
    with Suc.prems have "i = r" by simp
    with Suc.prems(2) show ?thesis
      by (simp add: nth_append length_concat_rows)
  qed
qed

lemma nrows_tabulate2: "nrows (tabulate2 r c f) = r"
  and ncols_tabulate2: "ncols (tabulate2 r c f) = c"
  by (simp_all add: tabulate2_def)

lemma wf2_tabulate2: "wf2 (tabulate2 r c f)"
  by (simp add: wf2_def tabulate2_def length_concat_rows)

lemma at2_tabulate2: "i < r \<Longrightarrow> j < c \<Longrightarrow> at2 (tabulate2 r c f) i j = f i j"
  by (simp add: at2_def tabulate2_def nth_concat_rows)

lemma for_loop_append:
  "for_loop (xs @ ys) body s =
     (case for_loop xs body s of Inl e \<Rightarrow> Inl e | Inr s' \<Rightarrow> for_loop ys body s')"
  by (induction xs arbitrary: s) (simp_all split: sum.splits)

lemma for_loop_invariant:
  assumes "I 0 s"
    and "\<And>i s. i < n \<Longrightarrow> I i s \<Longrightarrow> \<exists>s'. body i s = Inr s' \<and> I (Suc i) s'"
  shows "\<exists>s'. for_loop [0..<n] body s = Inr s' \<and> I n s'"
  using assms(2)
proof (induction n)
  case 0
  with assms(1) show ?case by simp
next
  case (Suc n)
  from Suc.IH Suc.prems obtain s1 where s1: "for_loop [0..<n] body s = Inr s1" "I n s1"
    by (metis less_Suc_eq)
  from Suc.prems [OF _ s1(2)] obtain s2 where "body n s1 = Inr s2" "I (Suc n) s2"
    by blast
  with s1 show ?case by (simp add: for_loop_append)
qed

lemma zeros2_nat:
  "zeros2 A (int r) (int c) = Inr (tabulate2 r c (\<lambda>i j. fzero A))"
proof -
  have "concat (map (\<lambda>i. map (\<lambda>j. fzero A) [0..<c]) [0..<r]) = replicate (r * c) (fzero A)"
    by (induction r) (simp_all add: map_replicate_const replicate_add)
  then show ?thesis by (simp add: zeros2_def tabulate2_def)
qed

lemma tabulate2_cong:
  assumes "\<And>i j. i < r \<Longrightarrow> j < c \<Longrightarrow> f i j = g i j"
  shows "tabulate2 r c f = tabulate2 r c g"
proof -
  have "map (\<lambda>i. map (f i) [0..<c]) [0..<r] = map (\<lambda>i. map (g i) [0..<c]) [0..<r]"
    using assms by simp
  then have "concat (map (\<lambda>i. map (f i) [0..<c]) [0..<r])
      = concat (map (\<lambda>i. map (g i) [0..<c]) [0..<r])"
    by (rule arg_cong)
  then show ?thesis by (simp only: tabulate2_def)
qed

lemma tensor2_eqI:
  assumes "nrows T = nrows U" and "ncols T = ncols U" and "wf2 T" and "wf2 U"
    and "\<And>i j. i < nrows T \<Longrightarrow> j < ncols T \<Longrightarrow> at2 T i j = at2 U i j"
  shows "T = U"
proof -
  have "vals T = vals U"
  proof (rule nth_equalityI)
    show "length (vals T) = length (vals U)"
      using assms(1-4) by (simp add: wf2_def)
  next
    fix p assume p: "p < length (vals T)"
    then have pr: "p < nrows T * ncols T" using assms(3) by (simp add: wf2_def)
    then have c: "0 < ncols T" by (cases "ncols T") simp_all
    have i: "p div ncols T < nrows T"
      using pr by (simp add: less_mult_imp_div_less)
    have j: "p mod ncols T < ncols T" using c by simp
    from assms(5) [OF i j] show "vals T ! p = vals U ! p"
      by (simp add: at2_def assms(2) [symmetric])
  qed
  with assms(1,2) show ?thesis by simp
qed

lemma slice2_inside:
  "i + h \<le> nrows X \<Longrightarrow> j + w \<le> ncols X \<Longrightarrow>
     slice2 X i (i + h) j (j + w) = window X i j h w"
  by (simp add: slice2_def window_def Let_def min_def max_def)

lemma bat_inside: "i < nrows T \<Longrightarrow> j < ncols T \<Longrightarrow> bat T i j = at2 T i j"
  by (auto simp: bat_def)

lemma binop2_same_shape:
  assumes "nrows T = nrows U" and "ncols T = ncols U"
  shows "binop2 f T U = Inr (tabulate2 (nrows T) (ncols T) (\<lambda>i j. f (at2 T i j) (at2 U i j)))"
proof -
  have "tabulate2 (nrows T) (ncols T) (\<lambda>i j. f (bat T i j) (bat U i j))
      = tabulate2 (nrows T) (ncols T) (\<lambda>i j. f (at2 T i j) (at2 U i j))"
    using assms by (intro tabulate2_cong) (simp add: bat_inside)
  with assms show ?thesis by (simp add: binop2_def broadcast_dim_def)
qed

lemma setitem2_inside:
  "i < nrows Y \<Longrightarrow> j < ncols Y \<Longrightarrow>
     setitem2 Y i j v = Inr (Y\<lparr>vals := (vals Y)[i * ncols Y + j := v]\<rparr>)"
  by (simp add: setitem2_def)

lemma at2_update:
  assumes "wf2 Y" and "i < nrows Y" and "j < ncols Y" and "r < nrows Y" and "s < ncols Y"
  shows "at2 (Y\<lparr>vals := (vals Y)[i * ncols Y + j := v]\<rparr>) r s
           = (if r = i \<and> s = j then v else at2 Y r s)"
proof -
  have lt: "i * ncols Y + j < length (vals Y)"
    using assms(1-3) by (simp add: wf2_def idx_lt)
  show ?thesis
  proof (cases "r = i \<and> s = j")
    case True
    with lt show ?thesis by (simp add: at2_def)
  next
    case False
    with idx_inj [OF assms(3,5), of i r] have "i * ncols Y + j \<noteq> r * ncols Y + s" by auto
    then have "(vals Y)[i * ncols Y + j := v] ! (r * ncols Y + s) = vals Y ! (r * ncols Y + s)"
      by (rule nth_list_update_neq)
    with False show ?thesis by (auto simp: at2_def)
  qed
qed

lemma fill_loops:
  fixes body :: "nat \<Rightarrow> nat \<Rightarrow> 'a tensor2 \<Rightarrow> 'e + 'a tensor2"
  assumes body: "\<And>i j Y. i < r \<Longrightarrow> j < c \<Longrightarrow> nrows Y = r \<Longrightarrow> ncols Y = c \<Longrightarrow>
      body i j Y = Inr (Y\<lparr>vals := (vals Y)[i * c + j := g i j]\<rparr>)"
  shows "for_loop [0..<r] (\<lambda>i Y. for_loop [0..<ncols Y] (\<lambda>j Y. body i j Y) Y)
           (tabulate2 r c (\<lambda>i j. z)) = Inr (tabulate2 r c g)"
proof -
  define shp where "shp Y \<longleftrightarrow> nrows Y = r \<and> ncols Y = c \<and> wf2 Y" for Y :: "'a tensor2"
  define J where "J i j Y \<longleftrightarrow> shp Y \<and>
      (\<forall>a<r. \<forall>b<c. at2 Y a b = (if a < i \<or> (a = i \<and> b < j) then g a b else z))" for i j Y
  have step: "\<exists>Y'. body i j Y = Inr Y' \<and> J i (Suc j) Y'" if "i < r" "j < c" "J i j Y" for i j Y
  proof -
    from that(3) have s: "nrows Y = r" "ncols Y = c" "wf2 Y" by (simp_all add: J_def shp_def)
    let ?Y = "Y\<lparr>vals := (vals Y)[i * c + j := g i j]\<rparr>"
    have b: "body i j Y = Inr ?Y" using that(1,2) s(1,2) by (rule body)
    have "shp ?Y" using s by (simp add: shp_def wf2_def)
    moreover have "at2 ?Y a b = (if a < i \<or> (a = i \<and> b < Suc j) then g a b else z)"
      if "a < r" "b < c" for a b
    proof -
      have "at2 ?Y a b = (if a = i \<and> b = j then g i j else at2 Y a b)"
        using at2_update [of Y i j a b "g i j"] s \<open>i < r\<close> \<open>j < c\<close> that by simp
      moreover have "at2 Y a b = (if a < i \<or> (a = i \<and> b < j) then g a b else z)"
        using \<open>J i j Y\<close> that by (simp add: J_def)
      ultimately show ?thesis by (auto simp: less_Suc_eq)
    qed
    ultimately have "J i (Suc j) ?Y" by (simp add: J_def)
    with b show ?thesis by blast
  qed
  have inner: "\<exists>Y'. for_loop [0..<ncols Y] (\<lambda>j Y. body i j Y) Y = Inr Y' \<and> J (Suc i) 0 Y'"
    if "i < r" "J i 0 Y" for i Y
  proof -
    from that(2) have c: "ncols Y = c" by (simp add: J_def shp_def)
    from for_loop_invariant [of "J i" Y c "body i", OF that(2)] step [OF that(1)]
    obtain Y' where Y': "for_loop [0..<c] (body i) Y = Inr Y'" "J i c Y'" by blast
    from Y'(2) have "J (Suc i) 0 Y'" by (auto simp: J_def less_Suc_eq)
    with Y'(1) c show ?thesis by simp
  qed
  have "J 0 0 (tabulate2 r c (\<lambda>i j. z))"
    by (simp add: J_def shp_def nrows_tabulate2 ncols_tabulate2 wf2_tabulate2 at2_tabulate2)
  from for_loop_invariant [of "\<lambda>i. J i 0" _ r
      "\<lambda>i Y. for_loop [0..<ncols Y] (\<lambda>j Y. body i j Y) Y", OF this] inner
  obtain Y' where Y': "for_loop [0..<r] (\<lambda>i Y. for_loop [0..<ncols Y] (\<lambda>j Y. body i j Y) Y)
           (tabulate2 r c (\<lambda>i j. z)) = Inr Y'" "J r 0 Y'" by blast
  from Y'(2) have "Y' = tabulate2 r c g"
    by (intro tensor2_eqI)
      (simp_all add: J_def shp_def nrows_tabulate2 ncols_tabulate2 wf2_tabulate2 at2_tabulate2)
  with Y'(1) show ?thesis by simp
qed

section \<open>Properties of \<open>corr2d\<close>\<close>

lemma tmul_slice:
  assumes "i + nrows K \<le> nrows X" and "j + ncols K \<le> ncols X"
  shows "tmul A (slice2 X i (i + nrows K) j (j + ncols K)) K = Inr (products A X K i j)"
proof -
  let ?S = "window X i j (nrows K) (ncols K)"
  have s: "nrows ?S = nrows K" "ncols ?S = ncols K"
    by (simp_all add: window_def nrows_tabulate2 ncols_tabulate2)
  have "tmul A ?S K
      = Inr (tabulate2 (nrows K) (ncols K) (\<lambda>a b. fmul A (at2 ?S a b) (at2 K a b)))"
    using binop2_same_shape [of ?S K "fmul A"] by (simp add: tmul_def s)
  also have "tabulate2 (nrows K) (ncols K) (\<lambda>a b. fmul A (at2 ?S a b) (at2 K a b))
      = products A X K i j"
    unfolding products_def by (intro tabulate2_cong) (simp add: window_def at2_tabulate2)
  finally show ?thesis using assms by (simp add: slice2_inside)
qed

lemma corr2d_closed_form:
  "corr2d A X K =
     (if nrows K \<le> nrows X + 1 \<and> ncols K \<le> ncols X + 1
      then Inr (tabulate2 (nrows X + 1 - nrows K) (ncols X + 1 - ncols K)
             (\<lambda>i j. fsum A (products A X K i j)))
      else Inl RuntimeError)"
proof (cases "nrows K \<le> nrows X + 1 \<and> ncols K \<le> ncols X + 1")
  case False
  then show ?thesis by (auto simp: corr2d_def zeros2_def Let_def)
next
  case True
  define r where "r = nrows X + 1 - nrows K"
  define c where "c = ncols X + 1 - ncols K"
  define g where "g = (\<lambda>i j. fsum A (products A X K i j))"
  have z: "zeros2 A (int (nrows X) - int (nrows K) + 1) (int (ncols X) - int (ncols K) + 1)
      = Inr (tabulate2 r c (\<lambda>i j. fzero A))"
  proof -
    have "int (nrows X) - int (nrows K) + 1 = int r" "int (ncols X) - int (ncols K) + 1 = int c"
      using True by (simp_all add: r_def c_def)
    then show ?thesis by (simp only: zeros2_nat)
  qed
  have body: "(case tmul A (slice2 X i (i + nrows K) j (j + ncols K)) K of
                Inl e \<Rightarrow> Inl e
              | Inr P \<Rightarrow> setitem2 Y i j (fsum A P))
            = Inr (Y\<lparr>vals := (vals Y)[i * c + j := g i j]\<rparr>)"
    if "i < r" "j < c" "nrows Y = r" "ncols Y = c" for i j and Y :: "'a tensor2"
  proof -
    from that(1,2) have "i + nrows K \<le> nrows X" "j + ncols K \<le> ncols X"
      by (simp_all add: r_def c_def)
    from tmul_slice [OF this] show ?thesis
      using that by (simp add: setitem2_inside g_def)
  qed
  have "corr2d A X K = for_loop [0..<r] (\<lambda>i Y. for_loop [0..<ncols Y] (\<lambda>j Y.
          case tmul A (slice2 X i (i + nrows K) j (j + ncols K)) K of
                Inl e \<Rightarrow> Inl e
              | Inr P \<Rightarrow> setitem2 Y i j (fsum A P)) Y) (tabulate2 r c (\<lambda>i j. fzero A))"
    by (simp only: corr2d_def Let_def z sum.case nrows_tabulate2)
  also have "\<dots> = Inr (tabulate2 r c g)"
    by (rule fill_loops) (rule body)
  finally show ?thesis
    using True unfolding r_def c_def g_def by simp
qed

text \<open>
  Claim C1. (as amended) For \<open>X\<close> of shape \<open>(n_h, n_w)\<close> and \<open>K\<close> of shape
  \<open>(k_h, k_w)\<close> with \<open>k_h \<le> n_h\<close> and \<open>k_w \<le> n_w\<close>, \<open>corr2d(X, K)\<close> returns a
  tensor of shape \<open>(n_h - k_h + 1, n_w - k_w + 1)\<close> whose entry at \<open>(i, j)\<close> is the
  framework's \<open>sum()\<close> of the \<open>k_h\<close> by \<open>k_w\<close> tensor of the products
  \<open>X[i + a, j + b] * K[a, b]\<close>, the products and the sum taken in the arithmetic of the
  elements, whatever that arithmetic is.
\<close>

theorem corr2d_cross_correlation:
  assumes "wf2 X" and "wf2 K" and "nrows K \<le> nrows X" and "ncols K \<le> ncols X"
  shows "\<exists>Y. corr2d A X K = Inr Y \<and> wf2 Y
           \<and> nrows Y = nrows X - nrows K + 1 \<and> ncols Y = ncols X - ncols K + 1
           \<and> (\<forall>i<nrows Y. \<forall>j<ncols Y. at2 Y i j = fsum A (products A X K i j))"
  using assms(3,4)
  by (simp add: corr2d_closed_form nrows_tabulate2 ncols_tabulate2 wf2_tabulate2 at2_tabulate2
      Suc_diff_le)

theorem corr2d_cross_correlation_witness:
  "wf2 \<lparr>nrows = 3, ncols = 3, vals = map Finite [0, 1, 2, 3, 4, 5, 6, 7, 8]\<rparr>
   \<and> wf2 \<lparr>nrows = 2, ncols = 2, vals = map Finite [0, 1, 2, 3]\<rparr>
   \<and> corr2d float32 \<lparr>nrows = 3, ncols = 3, vals = map Finite [0, 1, 2, 3, 4, 5, 6, 7, 8]\<rparr>
            \<lparr>nrows = 2, ncols = 2, vals = map Finite [0, 1, 2, 3]\<rparr>
         = Inr \<lparr>nrows = 2, ncols = 2, vals = map Finite [19, 25, 37, 43]\<rparr>"
  using corr2d_cross_correlation [of
      "\<lparr>nrows = 3, ncols = 3, vals = map Finite [0, 1, 2, 3, 4, 5, 6, 7, 8]\<rparr>"
      "\<lparr>nrows = 2, ncols = 2, vals = map Finite [0, 1, 2, 3]\<rparr>" float32]
  by (simp add: wf2_def corr2d_closed_form products_def tabulate2_def at2_def upt_rec
      numeral_2_eq_2 float32_ops)

text \<open>
  In \<open>float32\<close> that entry is not always the sum of the claim, taken in the real
  numbers. With \<open>X = [[16777216, 1]]\<close> and \<open>K = [[1, 1]]\<close> the sum is 16777217,
  which \<open>float32\<close> does not hold, and \<open>corr2d\<close> returns 16777216.
\<close>

theorem corr2d_rounding_counterexample:
  "corr2d float32 \<lparr>nrows = 1, ncols = 2, vals = [Finite 16777216, Finite 1]\<rparr>
      \<lparr>nrows = 1, ncols = 2, vals = [Finite 1, Finite 1]\<rparr>
     = Inr \<lparr>nrows = 1, ncols = 1, vals = [Finite 16777216]\<rparr>
   \<and> cross_correlation
       (reals \<lparr>nrows = 1, ncols = 2, vals = [Finite 16777216, Finite 1]\<rparr>)
       (reals \<lparr>nrows = 1, ncols = 2, vals = [Finite 1, Finite 1]\<rparr>) 0 0 = 16777217"
  by (simp add: corr2d_closed_form products_def tabulate2_def at2_def upt_rec
      numeral_2_eq_2 float32_ops round32_16777216 round32_16777217 cross_correlation_def reals_def exact_def
      lessThan_Suc)

section \<open>Properties of \<open>trans_conv\<close>\<close>

lemma iadd_slice2_inside:
  assumes "i + h \<le> nrows Y" and "j + w \<le> ncols Y" and "nrows V = h" and "ncols V = w"
  shows "iadd_slice2 A Y i (i + h) j (j + w) V =
     Inr (tabulate2 (nrows Y) (ncols Y)
       (\<lambda>p q. if i \<le> p \<and> p < i + h \<and> j \<le> q \<and> q < j + w
              then fadd A (at2 Y p q) (at2 V (p - i) (q - j)) else at2 Y p q))"
proof -
  have "tabulate2 (nrows Y) (ncols Y)
       (\<lambda>p q. if i \<le> p \<and> p < i + h \<and> j \<le> q \<and> q < j + w
              then fadd A (at2 Y p q) (bat V (p - i) (q - j)) else at2 Y p q)
    = tabulate2 (nrows Y) (ncols Y)
       (\<lambda>p q. if i \<le> p \<and> p < i + h \<and> j \<le> q \<and> q < j + w
              then fadd A (at2 Y p q) (at2 V (p - i) (q - j)) else at2 Y p q)"
    using assms(3,4) by (intro tabulate2_cong) (auto simp: bat_inside)
  with assms show ?thesis
    by (simp add: iadd_slice2_def Let_def min_def max_def)
qed

lemma at2_scale2:
  assumes "wf2 K" and "a < nrows K" and "b < ncols K"
  shows "at2 (scale2 A x K) a b = fmul A x (at2 K a b)"
proof -
  have "a * ncols K + b < length (vals K)"
    using assms by (simp add: wf2_def idx_lt)
  then show ?thesis by (simp add: at2_def scale2_def)
qed

lemma shape_scale2: "nrows (scale2 A x K) = nrows K" "ncols (scale2 A x K) = ncols K"
  by (simp_all add: scale2_def)

lemma accumulated_snoc:
  "accumulated A X K p q (filter (reaches h w p q) (ps @ [(i, j)])) =
     (if i \<le> p \<and> p < i + h \<and> j \<le> q \<and> q < j + w
      then fadd A (accumulated A X K p q (filter (reaches h w p q) ps))
             (fmul A (at2 X i j) (at2 K (p - i) (q - j)))
      else accumulated A X K p q (filter (reaches h w p q) ps))"
  by (simp add: accumulated_def reaches_def)

lemma product_upt_Suc:
  "List.product [0..<Suc i] ys = List.product [0..<i] ys @ map (Pair i) ys"
  by (simp add: product_concat_map)

lemma trans_conv_closed_form:
  assumes "wf2 K"
  shows "trans_conv A X K =
     (if 1 \<le> nrows X + nrows K \<and> 1 \<le> ncols X + ncols K
      then Inr (tabulate2 (nrows X + nrows K - 1) (ncols X + ncols K - 1)
             (\<lambda>p q. accumulated A X K p q (contributions X K p q)))
      else Inl RuntimeError)"
proof (cases "1 \<le> nrows X + nrows K \<and> 1 \<le> ncols X + ncols K")
  case False
  then show ?thesis by (auto simp: trans_conv_def zeros2_def Let_def)
next
  case True
  define R where "R = nrows X + nrows K - 1"
  define C where "C = ncols X + ncols K - 1"
  define m where "m = ncols X"
  define visited where "visited i j = List.product [0..<i] [0..<m] @ map (Pair i) [0..<j]"
    for i j :: nat
  define F where "F i j = (\<lambda>p q. accumulated A X K p q
      (filter (reaches (nrows K) (ncols K) p q) (visited i j)))" for i j
  define J where "J i j Y \<longleftrightarrow> Y = tabulate2 R C (F i j)" for i j Y
  have z: "zeros2 A (int (nrows X) + int (nrows K) - 1) (int (ncols X) + int (ncols K) - 1)
      = Inr (tabulate2 R C (\<lambda>i j. fzero A))"
  proof -
    have "int (nrows X) + int (nrows K) - 1 = int R" "int (ncols X) + int (ncols K) - 1 = int C"
      using True by (simp_all add: R_def C_def)
    then show ?thesis by (simp only: zeros2_nat)
  qed
  let ?inner = "\<lambda>i j Y. case getitem2 X i j of
                Inl e \<Rightarrow> Inl e
              | Inr x \<Rightarrow> iadd_slice2 A Y i (i + nrows K) j (j + ncols K) (scale2 A x K)"
  have step: "\<exists>Y'. ?inner i j Y = Inr Y' \<and> J i (Suc j) Y'"
    if "i < nrows X" "j < m" "J i j Y" for i j Y
  proof -
    from that(3) have Y: "Y = tabulate2 R C (F i j)" by (simp add: J_def)
    have in1: "i + nrows K \<le> nrows Y" "j + ncols K \<le> ncols Y"
      using that(1,2) by (simp_all add: Y nrows_tabulate2 ncols_tabulate2 R_def C_def m_def)
    have g: "getitem2 X i j = Inr (at2 X i j)"
      using that(1,2) by (simp add: getitem2_def m_def)
    have v: "visited i (Suc j) = visited i j @ [(i, j)]"
      by (simp add: visited_def)
    have "iadd_slice2 A Y i (i + nrows K) j (j + ncols K) (scale2 A (at2 X i j) K)
        = Inr (tabulate2 (nrows Y) (ncols Y)
           (\<lambda>p q. if i \<le> p \<and> p < i + nrows K \<and> j \<le> q \<and> q < j + ncols K
              then fadd A (at2 Y p q) (at2 (scale2 A (at2 X i j) K) (p - i) (q - j))
              else at2 Y p q))"
      using in1 by (intro iadd_slice2_inside) (simp_all add: shape_scale2)
    also have "tabulate2 (nrows Y) (ncols Y)
           (\<lambda>p q. if i \<le> p \<and> p < i + nrows K \<and> j \<le> q \<and> q < j + ncols K
              then fadd A (at2 Y p q) (at2 (scale2 A (at2 X i j) K) (p - i) (q - j))
              else at2 Y p q)
        = tabulate2 R C (F i (Suc j))"
      unfolding Y nrows_tabulate2 ncols_tabulate2
    proof (rule tabulate2_cong)
      fix p q assume pq: "p < R" "q < C"
      show "(if i \<le> p \<and> p < i + nrows K \<and> j \<le> q \<and> q < j + ncols K
              then fadd A (at2 (tabulate2 R C (F i j)) p q)
                     (at2 (scale2 A (at2 X i j) K) (p - i) (q - j))
              else at2 (tabulate2 R C (F i j)) p q) = F i (Suc j) p q"
      proof (cases "i \<le> p \<and> p < i + nrows K \<and> j \<le> q \<and> q < j + ncols K")
        case True
        then have "p - i < nrows K" "q - j < ncols K" by auto
        from at2_scale2 [OF assms this] True pq show ?thesis
          by (simp add: at2_tabulate2 F_def v accumulated_snoc del: filter_append)
      next
        case False
        then have nr: "\<not> reaches (nrows K) (ncols K) p q (i, j)" by (simp add: reaches_def)
        show ?thesis unfolding if_not_P [OF False]
          using pq nr by (simp add: at2_tabulate2 F_def v)
      qed
    qed
    finally have "?inner i j Y = Inr (tabulate2 R C (F i (Suc j)))"
      by (simp add: g)
    then show ?thesis by (simp add: J_def)
  qed
  have inner: "\<exists>Y'. for_loop [0..<ncols X] (\<lambda>j Y. ?inner i j Y) Y = Inr Y' \<and> J (Suc i) 0 Y'"
    if "i < nrows X" "J i 0 Y" for i Y
  proof -
    from for_loop_invariant [of "J i" Y m "?inner i", OF that(2)] step [OF that(1)]
    obtain Y' where Y': "for_loop [0..<m] (?inner i) Y = Inr Y'" "J i m Y'" by blast
    have "visited i m = visited (Suc i) 0"
      by (simp add: visited_def product_upt_Suc del: upt_Suc)
    with Y'(2) have "J (Suc i) 0 Y'" by (simp add: J_def F_def)
    with Y'(1) show ?thesis by (simp add: m_def)
  qed
  have "F 0 0 = (\<lambda>p q. fzero A)"
    by (simp add: F_def visited_def accumulated_def)
  then have "J 0 0 (tabulate2 R C (\<lambda>i j. fzero A))" by (simp add: J_def)
  from for_loop_invariant [of "\<lambda>i. J i 0" _ "nrows X"
      "\<lambda>i Y. for_loop [0..<ncols X] (\<lambda>j Y. ?inner i j Y) Y", OF this] inner
  obtain Y' where Y': "for_loop [0..<nrows X] (\<lambda>i Y. for_loop [0..<ncols X] (\<lambda>j Y. ?inner i j Y) Y)
           (tabulate2 R C (\<lambda>i j. fzero A)) = Inr Y'" "J (nrows X) 0 Y'" by blast
  have "trans_conv A X K = for_loop [0..<nrows X]
          (\<lambda>i Y. for_loop [0..<ncols X] (\<lambda>j Y. ?inner i j Y) Y) (tabulate2 R C (\<lambda>i j. fzero A))"
    by (simp only: trans_conv_def Let_def z sum.case)
  moreover have "F (nrows X) 0 = (\<lambda>p q. accumulated A X K p q (contributions X K p q))"
    by (simp add: F_def visited_def contributions_def m_def)
  ultimately have "trans_conv A X K
      = Inr (tabulate2 R C (\<lambda>p q. accumulated A X K p q (contributions X K p q)))"
    using Y' by (simp add: J_def)
  then show ?thesis
    using True unfolding R_def C_def by simp
qed

text \<open>
  Claim C2. (as amended) For \<open>X\<close> of shape \<open>(n_h, n_w)\<close> and \<open>K\<close> of shape
  \<open>(k_h, k_w)\<close> with \<open>n_h + k_h \<ge> 1\<close> and \<open>n_w + k_w \<ge> 1\<close>, \<open>trans_conv(X, K)\<close>
  returns a tensor \<open>Y\<close> of shape \<open>(n_h + k_h - 1, n_w + k_w - 1)\<close> in which
  \<open>Y[p, q]\<close> is what the loops accumulate: starting from zero, the products
  \<open>X[i, j] * K[p - i, q - j]\<close> of the input positions \<open>(i, j)\<close> with
  \<open>i \<le> p < i + k_h\<close> and \<open>j \<le> q < j + k_w\<close> are added one by one, in row-major order
  of \<open>(i, j)\<close>, each product and each addition in the arithmetic of the elements.
\<close>

theorem trans_conv_transposed_convolution:
  assumes "wf2 X" and "wf2 K" and "1 \<le> nrows X + nrows K" and "1 \<le> ncols X + ncols K"
  shows "\<exists>Y. trans_conv A X K = Inr Y \<and> wf2 Y
           \<and> nrows Y = nrows X + nrows K - 1 \<and> ncols Y = ncols X + ncols K - 1
           \<and> (\<forall>p<nrows Y. \<forall>q<ncols Y.
                at2 Y p q = accumulated A X K p q (contributions X K p q))"
  using assms(3,4)
  by (simp add: trans_conv_closed_form [OF assms(2)] nrows_tabulate2 ncols_tabulate2
      wf2_tabulate2 at2_tabulate2)

theorem trans_conv_transposed_convolution_witness:
  "wf2 \<lparr>nrows = 2, ncols = 2, vals = map Finite [0, 1, 2, 3]\<rparr>
   \<and> trans_conv float32 \<lparr>nrows = 2, ncols = 2, vals = map Finite [0, 1, 2, 3]\<rparr>
                \<lparr>nrows = 2, ncols = 2, vals = map Finite [0, 1, 2, 3]\<rparr>
         = Inr \<lparr>nrows = 3, ncols = 3, vals = map Finite [0, 0, 1, 0, 4, 6, 4, 12, 9]\<rparr>"
proof -
  let ?X = "\<lparr>nrows = 2, ncols = 2, vals = map Finite [0, 1, 2, 3]\<rparr>"
  have w: "wf2 ?X" by (simp add: wf2_def)
  from trans_conv_transposed_convolution [of ?X ?X float32, OF w w]
  obtain Y where Y: "trans_conv float32 ?X ?X = Inr Y" "wf2 Y" "nrows Y = 3" "ncols Y = 3"
    and e: "\<forall>p<nrows Y. \<forall>q<ncols Y.
                at2 Y p q = accumulated float32 ?X ?X p q (contributions ?X ?X p q)"
    by auto
  have "Y = \<lparr>nrows = 3, ncols = 3, vals = map Finite [0, 0, 1, 0, 4, 6, 4, 12, 9]\<rparr>"
  proof (rule tensor2_eqI)
    fix i j assume "i < nrows Y" "j < ncols Y"
    with Y(3,4) have ij: "i < 3" "j < 3" by simp_all
    then have "i \<in> {0, 1, 2}" "j \<in> {0, 1, 2}" by auto
    moreover have "at2 Y i j = accumulated float32 ?X ?X i j (contributions ?X ?X i j)"
      using e \<open>i < nrows Y\<close> \<open>j < ncols Y\<close> by simp
    ultimately show "at2 Y i j
        = at2 \<lparr>nrows = 3, ncols = 3, vals = map Finite [0, 0, 1, 0, 4, 6, 4, 12, 9]\<rparr> i j"
      by (auto simp: contributions_def reaches_def accumulated_def at2_def upt_rec
          numeral_2_eq_2 float32_ops)
  qed (use Y in \<open>simp_all add: wf2_def\<close>)
  with Y(1) w show ?thesis by simp
qed

lemma round32_16785409: "round32 16785409 = Finite 16785408"
  by (simp add: round32_def expo_def pow2_def round_even_def Let_def upto_rec1)

lemma round32_16785408: "round32 16785408 = Finite 16785408"
  by (simp add: round32_def expo_def pow2_def round_even_def Let_def upto_rec1)

text \<open>
  The claim as stated holds for every shape and gives the sum in the real numbers. With
  no row in \<open>X\<close> and none in \<open>K\<close> the shape asked of \<open>torch.zeros\<close> has the
  dimension -1, and the call raises. With \<open>X = [[4097]]\<close> and \<open>K = [[4097]]\<close> in
  \<open>float32\<close> the product is 16785409, and \<open>trans_conv\<close> returns 16785408.
\<close>

theorem trans_conv_counterexample:
  "wf2 \<lparr>nrows = 0, ncols = 2, vals = []\<rparr>
   \<and> trans_conv float32 \<lparr>nrows = 0, ncols = 2, vals = []\<rparr> \<lparr>nrows = 0, ncols = 2, vals = []\<rparr>
     = Inl RuntimeError
   \<and> trans_conv float32 \<lparr>nrows = 1, ncols = 1, vals = [Finite 4097]\<rparr>
        \<lparr>nrows = 1, ncols = 1, vals = [Finite 4097]\<rparr>
     = Inr \<lparr>nrows = 1, ncols = 1, vals = [Finite 16785408]\<rparr>
   \<and> transposed_convolution (reals \<lparr>nrows = 1, ncols = 1, vals = [Finite 4097]\<rparr>)
        (reals \<lparr>nrows = 1, ncols = 1, vals = [Finite 4097]\<rparr>) 0 0 = 16785409"
proof -
  have "wf2 \<lparr>nrows = 1, ncols = 1, vals = [Finite 4097]\<rparr>" by (simp add: wf2_def)
  then have "trans_conv float32 \<lparr>nrows = 1, ncols = 1, vals = [Finite 4097]\<rparr>
        \<lparr>nrows = 1, ncols = 1, vals = [Finite 4097]\<rparr>
     = Inr \<lparr>nrows = 1, ncols = 1, vals = [Finite 16785408]\<rparr>"
    by (simp add: trans_conv_closed_form contributions_def reaches_def accumulated_def
        tabulate2_def at2_def float32_ops round32_16785409 round32_16785408)
  moreover have "transposed_convolution (reals \<lparr>nrows = 1, ncols = 1, vals = [Finite 4097]\<rparr>)
        (reals \<lparr>nrows = 1, ncols = 1, vals = [Finite 4097]\<rparr>) 0 0 = 16785409"
    by (simp add: transposed_convolution_def contributions_def reaches_def reals_def exact_def
        at2_def)
  ultimately show ?thesis
    by (simp add: wf2_def trans_conv_def zeros2_def)
qed

section \<open>Properties of \<open>pool2d\<close>\<close>
















section \<open>Properties of the multi-channel cross-correlations\<close>






































section \<open>Failures of the notebook functions\<close>













end
